theory Spec2Isabelle
  imports Complex_Main "HOL-Library.Sublist"
begin

section \<open>Python strings\<close>

text \<open>
  A Python \<open>str\<close> is a sequence of Unicode code points and \<open>len\<close> counts code points,
  so a string is modelled as a list of code points (natural numbers).  The punctuation
  marks of the source are written by their code points.
\<close>

type_synonym uchar = nat
type_synonym ustring = "nat list"

datatype error = FileNotFoundError | ZeroDivisionError | IndexError | KeyboardInterrupt | OtherException

text \<open>
  The characters that \<open>str.strip()\<close>, \<open>str.isspace()\<close> and the pattern \<open>\s\<close> of a
  \<open>str\<close> regular expression treat as whitespace (CPython's \<open>Py_UNICODE_ISSPACE\<close>):
  U+0009..U+000D, U+001C..U+0020, U+0085, U+00A0, U+1680, U+2000..U+200A, U+2028, U+2029,
  U+202F, U+205F, U+3000.
\<close>

definition isspace :: "uchar \<Rightarrow> bool" where
  "isspace c \<longleftrightarrow>
     (9 \<le> c \<and> c \<le> 13) \<or> (28 \<le> c \<and> c \<le> 32) \<or> c = 133 \<or> c = 160 \<or> c = 5760 \<or>
     (8192 \<le> c \<and> c \<le> 8202) \<or> c = 8232 \<or> c = 8233 \<or> c = 8239 \<or> c = 8287 \<or> c = 12288"

text \<open>\<open>s.strip()\<close>: leading and trailing whitespace removed.\<close>

definition strip :: "ustring \<Rightarrow> ustring" where
  "strip s = rev (dropWhile isspace (rev (dropWhile isspace s)))"

text \<open>
  \<open>s.split(sep)\<close> for a one-character separator and \<open>re.split(r'[...]', s)\<close> for a
  character class: the fields between the separators, in order; there is always at least
  one field and fields may be empty.
\<close>

fun split_on :: "(uchar \<Rightarrow> bool) \<Rightarrow> ustring \<Rightarrow> ustring list" where
  "split_on d [] = [[]]"
| "split_on d (c # cs) =
     (if d c then [] # split_on d cs
      else (case split_on d cs of
              [] \<Rightarrow> [[c]]
            | f # fs \<Rightarrow> (c # f) # fs))"

text \<open>\<open>sep.join(xs)\<close>.\<close>

fun join :: "ustring \<Rightarrow> ustring list \<Rightarrow> ustring" where
  "join sep [] = []"
| "join sep [x] = x"
| "join sep (x # y # ys) = x @ sep @ join sep (y # ys)"

section \<open>text_cleaner.py\<close>

subsection \<open>normalize_text\<close>

text \<open>\<open>re.sub(r'\s+', '', t)\<close>: every run of whitespace is replaced by the empty string.\<close>

definition re_sub_spaces :: "ustring \<Rightarrow> ustring" where
  "re_sub_spaces t = filter (\<lambda>c. \<not> isspace c) t"

text \<open>
  The dictionary \<open>punctuation_map\<close>, in insertion order (the order \<open>items()\<close> yields):
  comma, full stop, exclamation mark, question mark, colon, semicolon and the two
  parentheses, each with its full-width form (U+FF0C, U+3002, U+FF01, U+FF1F, U+FF1A,
  U+FF1B, U+FF08, U+FF09).
\<close>

definition punctuation_map :: "(uchar \<times> uchar) list" where
  "punctuation_map =
     [(44, 65292), (46, 12290), (33, 65281), (63, 65311),
      (58, 65306), (59, 65307), (40, 65288), (41, 65289)]"

text \<open>\<open>s.replace(half, full)\<close> where both arguments are one character long.\<close>

definition replace_char :: "uchar \<Rightarrow> uchar \<Rightarrow> ustring \<Rightarrow> ustring" where
  "replace_char half full s = map (\<lambda>c. if c = half then full else c) s"

definition normalize_text :: "ustring \<Rightarrow> ustring" where
  "normalize_text text =
     foldl (\<lambda>cleaned (half, full). replace_char half full cleaned)
           (re_sub_spaces (strip text)) punctuation_map"

subsection \<open>split_into_sentences\<close>

text \<open>The character class of \<open>re.split\<close>: U+3002, U+FF01, U+FF1F, U+FF1B.\<close>

definition sentence_end :: "uchar \<Rightarrow> bool" where
  "sentence_end c \<longleftrightarrow> c = 12290 \<or> c = 65281 \<or> c = 65311 \<or> c = 65307"

definition split_into_sentences :: "ustring \<Rightarrow> ustring list" where
  "split_into_sentences text =
     map strip (filter (\<lambda>s. length (strip s) > 5) (split_on sentence_end text))"

subsection \<open>split_into_paragraphs\<close>

text \<open>
  The state of the loop is the pair \<open>(paragraphs, current_para)\<close>; \<open>para_step\<close> is one
  iteration of the \<open>for\<close> loop and \<open>para_flush\<close> the statement after it.
\<close>

fun para_step :: "int \<Rightarrow> ustring list \<times> ustring \<Rightarrow> ustring \<Rightarrow> ustring list \<times> ustring" where
  "para_step min_length (paragraphs, current_para) sentence =
     (if length current_para + length sentence < 500
      then (paragraphs, current_para @ sentence @ [12290])
      else ((if min_length \<le> int (length current_para)
             then paragraphs @ [current_para] else paragraphs),
            sentence @ [12290]))"

fun para_flush :: "int \<Rightarrow> ustring list \<times> ustring \<Rightarrow> ustring list" where
  "para_flush min_length (paragraphs, current_para) =
     (if min_length \<le> int (length current_para)
      then paragraphs @ [current_para] else paragraphs)"

definition split_into_paragraphs :: "ustring \<Rightarrow> int \<Rightarrow> ustring list" where
  "split_into_paragraphs text min_length =
     para_flush min_length
       (foldl (para_step min_length) ([], []) (split_into_sentences text))"

subsection \<open>extract_metadata_from_filename\<close>

text \<open>
  \<open>Path(filename).stem\<close> is standard-library code (pathlib, POSIX flavour, CPython up to
  3.13): the name is the last component of the path that is neither empty nor \<open>.\<close>, or the
  empty string when there is none; the stem is the name up to its last dot, when that dot
  is neither the first nor the last character of the name.
\<close>

definition path_name :: "ustring \<Rightarrow> ustring" where
  "path_name p =
     (case filter (\<lambda>x. x \<noteq> [] \<and> x \<noteq> [46]) (split_on (\<lambda>c. c = 47) p) of
        [] \<Rightarrow> []
      | x # xs \<Rightarrow> last (x # xs))"

text \<open>\<open>s.rfind(c)\<close>: the index of the last occurrence of \<open>c\<close>, or \<open>-1\<close>.\<close>

definition rfind :: "uchar \<Rightarrow> ustring \<Rightarrow> int" where
  "rfind c s =
     (if c \<in> set s
      then int (length s) - 1 - int (length (takeWhile (\<lambda>x. x \<noteq> c) (rev s)))
      else - 1)"

definition path_stem :: "ustring \<Rightarrow> ustring" where
  "path_stem p =
     (let name = path_name p; i = rfind 46 name
      in if 0 < i \<and> i < int (length name) - 1 then take (nat i) name else name)"

text \<open>\<open>xs[i]\<close> for a non-negative index raises \<open>IndexError\<close> out of range.\<close>

definition index :: "'a list \<Rightarrow> nat \<Rightarrow> error + 'a" where
  "index xs i = (if i < length xs then Inr (xs ! i) else Inl IndexError)"

text \<open>\<open>s[i:j]\<close> for \<open>0 \<le> i \<le> j\<close>; a slice never raises.\<close>

definition slice :: "nat \<Rightarrow> nat \<Rightarrow> 'a list \<Rightarrow> 'a list" where
  "slice i j s = take (j - i) (drop i s)"

text \<open>
  \<open>s.isdigit()\<close>: the string is not empty and all its characters are digits.  Which code
  points are digits is a table of the Unicode database; it is a parameter \<open>isdigit\<close> of
  the model.
\<close>

definition str_isdigit :: "(uchar \<Rightarrow> bool) \<Rightarrow> ustring \<Rightarrow> bool" where
  "str_isdigit isdigit s \<longleftrightarrow> s \<noteq> [] \<and> list_all isdigit s"

record metadata_dict =
  title :: ustring
  date :: ustring
  page_info :: ustring

definition bind :: "error + 'a \<Rightarrow> ('a \<Rightarrow> error + 'b) \<Rightarrow> error + 'b" where
  "bind r f = (case r of Inl e \<Rightarrow> Inl e | Inr v \<Rightarrow> f v)"

definition extract_metadata_from_filename ::
    "(uchar \<Rightarrow> bool) \<Rightarrow> ustring \<Rightarrow> error + metadata_dict" where
  "extract_metadata_from_filename isdigit filename =
     (let name_without_ext = path_stem filename;
          parts = split_on (\<lambda>c. c = 95) name_without_ext;
          metadata = \<lparr>title = [], date = [], page_info = []\<rparr>
      in bind (if 1 \<le> length parts
               then bind (index parts 0) (\<lambda>p0. Inr (metadata\<lparr>title := p0\<rparr>))
               else Inr metadata)
        (\<lambda>metadata.
         bind (if 2 \<le> length parts
               then bind (index parts 1) (\<lambda>date_str.
                      if 8 \<le> length date_str \<and> str_isdigit isdigit (slice 0 8 date_str)
                      then (let year = slice 0 4 date_str;
                                month = slice 4 6 date_str;
                                day = slice 6 8 date_str
                            in Inr (metadata\<lparr>date := year @ [45] @ month @ [45] @ day\<rparr>))
                      else Inr metadata)
               else Inr metadata)
        (\<lambda>metadata.
         Inr (if 3 \<le> length parts
              then metadata\<lparr>page_info := join [95] (drop 2 parts)\<rparr>
              else metadata))))"

subsection \<open>clean_ocr_text_file\<close>

text \<open>
  The file system is a map from paths to file contents.  The compression ratio is kept
  as the exact number \<open>(1 - cleaned / original) * 100\<close>; the source computes it in
  floating point and formats it with two decimals.  \<open>a / b\<close> on two lengths raises
  \<open>ZeroDivisionError\<close> when \<open>b\<close> is 0.  Writing the output file comes after the
  statistics and is not part of the model.
\<close>

definition truediv :: "nat \<Rightarrow> nat \<Rightarrow> error + rat" where
  "truediv a b = (if b = 0 then Inl ZeroDivisionError else Inr (of_nat a / of_nat b))"

record stats_dict =
  original_length :: nat
  cleaned_length :: nat
  sentence_count :: nat
  paragraph_count :: nat
  compression_ratio :: rat

record result_dict =
  metadata :: metadata_dict
  raw_text :: ustring
  normalized_text :: ustring
  sentences :: "ustring list"
  paragraphs :: "ustring list"
  stats :: stats_dict

definition clean_ocr_text_file ::
    "(uchar \<Rightarrow> bool) \<Rightarrow> (ustring \<rightharpoonup> ustring) \<Rightarrow> ustring \<Rightarrow> error + result_dict" where
  "clean_ocr_text_file isdigit fs input_path =
     (case fs input_path of
        None \<Rightarrow> Inl FileNotFoundError
      | Some raw \<Rightarrow>
          bind (extract_metadata_from_filename isdigit (path_name input_path)) (\<lambda>md.
          let normalized = normalize_text raw;
              sents = split_into_sentences normalized;
              paras = split_into_paragraphs normalized 50
          in bind (truediv (length normalized) (length raw)) (\<lambda>q.
             Inr \<lparr>metadata = md, raw_text = raw, normalized_text = normalized,
                  sentences = sents, paragraphs = paras,
                  stats = \<lparr>original_length = length raw,
                            cleaned_length = length normalized,
                            sentence_count = length sents,
                            paragraph_count = length paras,
                            compression_ratio = (1 - q) * 100\<rparr>\<rparr>)))"

section \<open>ocr_tesseract.py\<close>

subsection \<open>filter_garbled_text\<close>

text \<open>
  The character class of the first pattern: U+4E00..U+9FFF, \<open>\w\<close>, \<open>\s\<close>, U+3000..U+303F,
  U+FF00..U+FFEF and the escaped ASCII marks \<open>\ / : . , ! ? ; " ' ( ) [ ] { } - + = < >\<close>.
  In a \<open>str\<close> pattern \<open>\w\<close> matches the underscore and every character for which
  \<open>str.isalnum()\<close> holds; that table of the Unicode database is a parameter \<open>isalnum\<close>
  of the model.
\<close>

definition normal_punctuation :: "uchar list" where
  "normal_punctuation =
     [92, 47, 58, 46, 44, 33, 63, 59, 34, 39, 40, 41, 91, 93, 123, 125, 45, 43, 61, 60, 62]"

definition normal_char :: "(uchar \<Rightarrow> bool) \<Rightarrow> uchar \<Rightarrow> bool" where
  "normal_char isalnum c \<longleftrightarrow>
     (19968 \<le> c \<and> c \<le> 40959) \<or> isalnum c \<or> c = 95 \<or> isspace c \<or>
     (12288 \<le> c \<and> c \<le> 12351) \<or> (65280 \<le> c \<and> c \<le> 65519) \<or>
     c \<in> set normal_punctuation"

text \<open>
  The character class of the second pattern:
  \<open>! @ # $ % ^ & * ( ) _ + = { } [ ] | \ : ; " ' < > , ? /\<close>.
\<close>

definition noise_symbols :: "uchar list" where
  "noise_symbols =
     [33, 64, 35, 36, 37, 94, 38, 42, 40, 41, 95, 43, 61, 123, 125, 91, 93, 124, 92,
      58, 59, 34, 39, 60, 62, 44, 63, 47]"

text \<open>
  \<open>re.search(r'[...]{10,}', line)\<close> finds a match exactly when, from some position of the
  line on, at least ten characters in a row belong to the class.
\<close>

definition re_search_noise :: "ustring \<Rightarrow> bool" where
  "re_search_noise line \<longleftrightarrow>
     list_ex (\<lambda>i. 10 \<le> length (takeWhile (\<lambda>c. c \<in> set noise_symbols) (drop i line)))
       [0..<length line]"

text \<open>
  The loop over the lines, with the list \<open>filtered_lines\<close> as accumulator.  The ratio is
  compared as an exact fraction; the source divides and compares in floating point, which
  gives the same answer for every line shorter than \<open>2^53\<close> characters.
\<close>

fun filter_lines :: "(uchar \<Rightarrow> bool) \<Rightarrow> ustring list \<Rightarrow> ustring list \<Rightarrow> ustring list" where
  "filter_lines isalnum [] filtered_lines = filtered_lines"
| "filter_lines isalnum (line # lines) filtered_lines =
     (if strip line = [] then filter_lines isalnum lines (filtered_lines @ [line])
      else let total_chars = length line in
        if total_chars = 0 then filter_lines isalnum lines (filtered_lines @ [line])
        else let normal_chars = length (filter (normal_char isalnum) line);
                 normal_ratio = (of_nat normal_chars / of_nat total_chars :: rat) in
          if normal_ratio < 4 / 10 then filter_lines isalnum lines filtered_lines
          else if re_search_noise line then filter_lines isalnum lines filtered_lines
          else filter_lines isalnum lines (filtered_lines @ [line]))"

text \<open>\<open>text.split('\n')\<close>: the lines of a text.\<close>

definition split_lines :: "ustring \<Rightarrow> ustring list" where
  "split_lines text = split_on (\<lambda>c. c = 10) text"

definition filter_garbled_text :: "(uchar \<Rightarrow> bool) \<Rightarrow> ustring \<Rightarrow> ustring" where
  "filter_garbled_text isalnum text =
     (if strip text = [] then text
      else join [10] (filter_lines isalnum (split_lines text) []))"

subsection \<open>ocr_pdf_with_tesseract\<close>

text \<open>
  The recognition engine is outside the repository.  \<open>get_languages eng n\<close> is what the
  call \<open>pytesseract.get_languages()\<close> answers when \<open>n\<close> calls were made before it, and
  \<open>image_to_string eng page clip lang\<close> is the text recognised on a rendered clip;
  \<open>None\<close> stands for a raised exception, which the \<open>try\<close> around the recognition of a
  slice catches.  The state records what the run does: the number of engine queries, the
  language passed to each recognition call, the clip rectangles \<open>(y, y1)\<close> in the order
  they are rendered, and the list \<open>full_content\<close>.
\<close>

record engine =
  get_languages :: "nat \<Rightarrow> string list option"
  image_to_string :: "nat \<Rightarrow> real \<times> real \<Rightarrow> string \<Rightarrow> ustring option"

record ocr_state =
  queries :: nat
  langs_used :: "string list"
  clips :: "(real \<times> real) list"
  full_content :: "ustring list"

definition chunk_h :: int where "chunk_h = 1500"

definition overlap :: int where "overlap = 100"

text \<open>The body of the \<open>try\<close> statement for one slice.\<close>

definition recognise_slice ::
    "engine \<Rightarrow> (uchar \<Rightarrow> bool) \<Rightarrow> nat \<Rightarrow> nat \<Rightarrow> real \<times> real \<Rightarrow> ocr_state \<Rightarrow> ocr_state" where
  "recognise_slice eng isalnum page_idx slice_idx clip_rect st =
     (let asked = st\<lparr>queries := Suc (queries st)\<rparr>
      in case (if slice_idx = 1 \<and> page_idx = 0
               then (case get_languages eng (queries st) of
                       None \<Rightarrow> None
                     | Some available_langs \<Rightarrow>
                         Some (if ''chi_sim'' \<in> set available_langs
                               then ''chi_sim+eng'' else ''eng''))
               else (case get_languages eng (queries st) of
                       None \<Rightarrow> None
                     | Some available_langs \<Rightarrow>
                         Some (if ''chi_sim'' \<in> set available_langs
                               then ''chi_sim+eng'' else ''eng''))) of
           None \<Rightarrow> asked
         | Some lang \<Rightarrow>
             (let used = asked\<lparr>langs_used := langs_used asked @ [lang]\<rparr>
              in case image_to_string eng page_idx clip_rect lang of
                   None \<Rightarrow> used
                 | Some text \<Rightarrow>
                     (let text = strip (filter_garbled_text isalnum text)
                      in if text \<noteq> []
                         then used\<lparr>full_content := full_content used @ [text]\<rparr>
                         else used)))"

text \<open>
  The \<open>while y < page_h\<close> loop of one page.  The offset \<open>y\<close> is a Python integer and the
  page height a float; Python compares the two exactly, so the page height is a real
  number here.  Rendering a clip and saving it are taken to succeed.
\<close>

function slice_loop ::
    "engine \<Rightarrow> (uchar \<Rightarrow> bool) \<Rightarrow> nat \<Rightarrow> real \<Rightarrow> int \<Rightarrow> nat \<Rightarrow> ocr_state \<Rightarrow> ocr_state" where
  "slice_loop eng isalnum page_idx page_h y slice_idx st =
     (if real_of_int y < page_h
      then if min (real_of_int (y + chunk_h)) page_h \<ge> page_h
           then recognise_slice eng isalnum page_idx (slice_idx + 1)
                  (real_of_int y, min (real_of_int (y + chunk_h)) page_h)
                  (st\<lparr>clips := clips st @ [(real_of_int y, min (real_of_int (y + chunk_h)) page_h)]\<rparr>)
           else slice_loop eng isalnum page_idx page_h (y + (chunk_h - overlap)) (slice_idx + 1)
                  (recognise_slice eng isalnum page_idx (slice_idx + 1)
                     (real_of_int y, min (real_of_int (y + chunk_h)) page_h)
                     (st\<lparr>clips := clips st @ [(real_of_int y, min (real_of_int (y + chunk_h)) page_h)]\<rparr>))
      else st)"
  by pat_completeness auto
termination
  by (relation "measure (\<lambda>(eng, isalnum, page_idx, page_h, y, slice_idx, st).
                  nat \<lceil>page_h - real_of_int y\<rceil>)")
     (auto simp: chunk_h_def overlap_def, linarith)

declare slice_loop.simps [simp del]

text \<open>
  A document is the list of its page heights; \<open>None\<close> is a path at which no file exists.
  The result is the returned pair together with the final state.  The text of the error
  message and the writing of the output file are left out.
\<close>

definition init_state :: ocr_state where
  "init_state = \<lparr>queries = 0, langs_used = [], clips = [], full_content = []\<rparr>"

definition ocr_pdf_with_tesseract ::
    "engine \<Rightarrow> (uchar \<Rightarrow> bool) \<Rightarrow> real list option \<Rightarrow> (bool \<times> ustring) \<times> ocr_state" where
  "ocr_pdf_with_tesseract eng isalnum doc =
     (case doc of
        None \<Rightarrow> ((False, []), init_state)
      | Some pages \<Rightarrow>
          (let st = foldl (\<lambda>st (page_idx, page_h).
                             slice_loop eng isalnum page_idx page_h 0 0 st)
                      init_state (zip [0..<length pages] pages)
           in ((True, join [10, 10] (full_content st)), st)))"

subsection \<open>process_directory and main\<close>

text \<open>
  The operating system and the processing of one file are the environment:
  \<open>glob_supported env d\<close> is the list \<open>all_files\<close> the patterns find in \<open>d\<close>, and
  \<open>process_single_file env f\<close> is what processing \<open>f\<close> returns, or the exception it
  raises.
\<close>

record os_env =
  isdir :: "ustring \<Rightarrow> bool"
  isfile :: "ustring \<Rightarrow> bool"
  glob_supported :: "ustring \<Rightarrow> ustring list"
  process_single_file :: "ustring \<Rightarrow> error + bool"

record args =
  path :: ustring
  directory :: bool
  quiet :: bool
  clean :: bool

fun process_files ::
    "(ustring \<Rightarrow> error + bool) \<Rightarrow> ustring list \<Rightarrow> nat \<times> nat \<Rightarrow> error + nat \<times> nat" where
  "process_files psf [] (success_count, fail_count) = Inr (success_count, fail_count)"
| "process_files psf (file_path # rest) (success_count, fail_count) =
     (case psf file_path of
        Inl e \<Rightarrow> Inl e
      | Inr success \<Rightarrow>
          if success then process_files psf rest (success_count + 1, fail_count)
          else process_files psf rest (success_count, fail_count + 1))"

definition process_directory :: "os_env \<Rightarrow> ustring \<Rightarrow> error + nat \<times> nat \<times> nat" where
  "process_directory env dir_path =
     (if \<not> isdir env dir_path then Inr (0, 0, 0)
      else let all_files = glob_supported env dir_path in
        if all_files = [] then Inr (0, 0, 0)
        else bind (process_files (process_single_file env) all_files (0, 0))
               (\<lambda>(success_count, fail_count).
                  Inr (success_count, fail_count, length all_files)))"

text \<open>The exit status of the process.\<close>

definition main :: "os_env \<Rightarrow> args \<Rightarrow> int" where
  "main env args =
     (case (if directory args
            then bind (process_directory env (path args))
                   (\<lambda>(success, fail, total). Inr (if fail = 0 then 0 else 1))
            else if isfile env (path args)
            then bind (process_single_file env (path args))
                   (\<lambda>success. Inr (if success then 0 else 1))
            else if isdir env (path args) then Inr 1
            else Inr 1) of
        Inr status \<Rightarrow> status
      | Inl KeyboardInterrupt \<Rightarrow> 130
      | Inl _ \<Rightarrow> 1)"

section \<open>Auxiliary notions\<close>

text \<open>What the eight replacements do to one character.\<close>

definition punct :: "uchar \<Rightarrow> uchar" where
  "punct c = foldl (\<lambda>c (half, full). if c = half then full else c) c punctuation_map"

text \<open>An ASCII string literal as a Python string.\<close>

definition ascii :: "string \<Rightarrow> ustring" where
  "ascii s = map of_char s"

text \<open>
  Notions for the statements about \<open>filter_garbled_text\<close>: a blank line, the fraction of
  characters of a line that the first pattern matches, the lines the loop appends, and a
  table of the ASCII letters and digits to instantiate the parameter \<open>isalnum\<close> with.
\<close>

definition blank :: "ustring \<Rightarrow> bool" where
  "blank line \<longleftrightarrow> strip line = []"

definition normal_ratio :: "(uchar \<Rightarrow> bool) \<Rightarrow> ustring \<Rightarrow> rat" where
  "normal_ratio isalnum line =
     of_nat (length (filter (normal_char isalnum) line)) / of_nat (length line)"

definition retained :: "(uchar \<Rightarrow> bool) \<Rightarrow> ustring \<Rightarrow> bool" where
  "retained isalnum line \<longleftrightarrow>
     blank line \<or> (4 / 10 \<le> normal_ratio isalnum line \<and> \<not> re_search_noise line)"

definition ascii_alnum :: "uchar \<Rightarrow> bool" where
  "ascii_alnum c \<longleftrightarrow> (48 \<le> c \<and> c \<le> 57) \<or> (65 \<le> c \<and> c \<le> 90) \<or> (97 \<le> c \<and> c \<le> 122)"

text \<open>
  The allow-set in the words of the specification, which are also those of the comment
  above the first pattern (Chinese, English, digits, common punctuation): the script
  characters of the supported languages (U+4E00..U+9FFF), Latin letters, digits,
  whitespace, and the punctuation marks of the pattern in half-width and full-width form.
  It is the class of the pattern with \<open>\w\<close> replaced by the ASCII letters and digits.
  With it come the fraction of such characters in a line, a line of six Cyrillic letters,
  and a table of letters and digits that has the small Cyrillic letters as well.
\<close>

definition spec_allow_char :: "uchar \<Rightarrow> bool" where
  "spec_allow_char c \<longleftrightarrow>
     (19968 \<le> c \<and> c \<le> 40959) \<or> (65 \<le> c \<and> c \<le> 90) \<or> (97 \<le> c \<and> c \<le> 122) \<or>
     (48 \<le> c \<and> c \<le> 57) \<or> isspace c \<or>
     (12288 \<le> c \<and> c \<le> 12351) \<or> (65280 \<le> c \<and> c \<le> 65519) \<or>
     c \<in> set normal_punctuation"

definition spec_allow_ratio :: "ustring \<Rightarrow> rat" where
  "spec_allow_ratio line = of_nat (length (filter spec_allow_char line)) / of_nat (length line)"

definition cyrillic_word :: ustring where
  "cyrillic_word = [1087, 1088, 1080, 1074, 1077, 1090]"

definition ascii_cyrillic_alnum :: "uchar \<Rightarrow> bool" where
  "ascii_cyrillic_alnum c \<longleftrightarrow> ascii_alnum c \<or> (1072 \<le> c \<and> c \<le> 1103)"

text \<open>
  Notions for the statements about the slicing loop: the \<open>i\<close>-th clip rectangle of a
  page of height \<open>H\<close> when the offsets start at \<open>y\<close>, an engine whose first answer lists
  the \<open>chi_sim\<close> pack and whose later answers do not, and an environment in which no path
  is a file or a directory.
\<close>

definition clip_from :: "real \<Rightarrow> int \<Rightarrow> nat \<Rightarrow> real \<times> real" where
  "clip_from H y i =
     (real_of_int (y + int i * (chunk_h - overlap)),
      min (real_of_int (y + int i * (chunk_h - overlap) + chunk_h)) H)"

definition changing_engine :: engine where
  "changing_engine =
     \<lparr>get_languages = (\<lambda>n. Some (if n = 0 then [''chi_sim'', ''eng''] else [''eng''])),
      image_to_string = (\<lambda>page clip lang. Some [])\<rparr>"

definition no_such_dir :: os_env where
  "no_such_dir =
     \<lparr>isdir = (\<lambda>p. False), isfile = (\<lambda>p. False), glob_supported = (\<lambda>p. []),
      process_single_file = (\<lambda>p. Inr False)\<rparr>"

section \<open>The metadata parser returns\<close>

lemma split_on_not_Nil: "split_on d s \<noteq> []"
  by (induction s) (auto split: list.splits)

lemma extract_metadata_eq:
  "extract_metadata_from_filename isdigit filename =
     (let parts = split_on (\<lambda>c. c = 95) (path_stem filename); f1 = parts ! 1 in
      Inr \<lparr>title = hd parts,
           date = (if 2 \<le> length parts \<and> 8 \<le> length f1 \<and> list_all isdigit (take 8 f1)
                   then take 4 f1 @ [45] @ take 2 (drop 4 f1) @ [45] @ take 2 (drop 6 f1)
                   else []),
           page_info = join [95] (drop 2 parts)\<rparr>)"
proof -
  obtain p0 rest where parts: "split_on (\<lambda>c. c = 95) (path_stem filename) = p0 # rest"
    using split_on_not_Nil by (cases "split_on (\<lambda>c. c = 95) (path_stem filename)") auto
  show ?thesis
  proof (cases rest)
    case Nil
    with parts show ?thesis
      by (simp add: extract_metadata_from_filename_def bind_def index_def)
  next
    case (Cons p1 rest')
    with parts show ?thesis
      by (cases rest')
         (auto simp: extract_metadata_from_filename_def bind_def index_def slice_def
                   str_isdigit_def Let_def)
  qed
qed

lemma clean_ocr_text_file_returns:
  "fs p = Some raw \<Longrightarrow> raw \<noteq> [] \<Longrightarrow>
   clean_ocr_text_file isdigit fs p =
     Inr \<lparr>metadata = projr (extract_metadata_from_filename isdigit (path_name p)),
          raw_text = raw, normalized_text = normalize_text raw,
          sentences = split_into_sentences (normalize_text raw),
          paragraphs = split_into_paragraphs (normalize_text raw) 50,
          stats = \<lparr>original_length = length raw,
                    cleaned_length = length (normalize_text raw),
                    sentence_count = length (split_into_sentences (normalize_text raw)),
                    paragraph_count = length (split_into_paragraphs (normalize_text raw) 50),
                    compression_ratio =
                      (1 - of_nat (length (normalize_text raw)) / of_nat (length raw)) * 100\<rparr>\<rparr>"
  by (simp add: clean_ocr_text_file_def extract_metadata_eq bind_def truediv_def Let_def)

section \<open>Properties of normalize_text\<close>

lemma foldl_replace_char:
  "foldl (\<lambda>cleaned (half, full). replace_char half full cleaned) s ps =
   map (\<lambda>c. foldl (\<lambda>c (half, full). if c = half then full else c) c ps) s"
proof (induction ps arbitrary: s)
  case Nil
  show ?case by simp
next
  case (Cons p ps)
  obtain h f where p: "p = (h, f)" by (cases p)
  show ?case by (simp add: p Cons.IH) (simp add: replace_char_def)
qed

lemma filter_dropWhile_neg: "filter (\<lambda>c. \<not> P c) (dropWhile P xs) = filter (\<lambda>c. \<not> P c) xs"
  by (induction xs) auto

lemma re_sub_spaces_strip: "re_sub_spaces (strip t) = re_sub_spaces t"
proof -
  have "filter (\<lambda>c. \<not> isspace c) (rev (dropWhile isspace (rev (dropWhile isspace t)))) =
        rev (filter (\<lambda>c. \<not> isspace c) (dropWhile isspace (rev (dropWhile isspace t))))"
    by (simp only: rev_filter)
  also have "\<dots> = rev (filter (\<lambda>c. \<not> isspace c) (rev (dropWhile isspace t)))"
    by (simp only: filter_dropWhile_neg)
  also have "\<dots> = filter (\<lambda>c. \<not> isspace c) (dropWhile isspace t)"
    by (simp add: rev_filter)
  also have "\<dots> = filter (\<lambda>c. \<not> isspace c) t"
    by (rule filter_dropWhile_neg)
  finally show ?thesis by (simp add: re_sub_spaces_def strip_def)
qed

lemma normalize_text_eq: "normalize_text t = map punct (filter (\<lambda>c. \<not> isspace c) t)"
proof -
  have "normalize_text t = map punct (re_sub_spaces (strip t))"
    unfolding normalize_text_def punct_def by (rule foldl_replace_char)
  then show ?thesis by (simp add: re_sub_spaces_strip) (simp add: re_sub_spaces_def)
qed

lemma punct_cases:
  "punct c = (if c = 44 then 65292 else if c = 46 then 12290 else if c = 33 then 65281
              else if c = 63 then 65311 else if c = 58 then 65306 else if c = 59 then 65307
              else if c = 40 then 65288 else if c = 41 then 65289 else c)"
  by (simp add: punct_def punctuation_map_def)

lemma punct_idem: "punct (punct c) = punct c"
  by (simp add: punct_cases)

lemma punct_not_space: "\<not> isspace c \<Longrightarrow> \<not> isspace (punct c)"
  by (simp add: punct_cases isspace_def)

lemma punct_no_half_width: "punct c \<notin> fst ` set punctuation_map"
  by (simp add: punct_cases punctuation_map_def)

lemma normalize_text_no_space: "c \<in> set (normalize_text t) \<Longrightarrow> \<not> isspace c"
  by (auto simp: normalize_text_eq punct_not_space)

text \<open>
  Claim C5.  \<open>normalize_text\<close> is idempotent: a second pass changes nothing, because the
  result of the first pass contains no whitespace character and no half-width
  punctuation mark of \<open>punctuation_map\<close>.
\<close>

theorem normalize_text_idempotent:
  "normalize_text (normalize_text x) = normalize_text x
   \<and> list_all (\<lambda>c. \<not> isspace c \<and> c \<notin> fst ` set punctuation_map) (normalize_text x)"
proof -
  have keep: "filter (\<lambda>c. \<not> isspace c) (normalize_text x) = normalize_text x"
    by (rule filter_True) (simp add: normalize_text_no_space)
  have "normalize_text (normalize_text x) = map punct (normalize_text x)"
    by (simp add: normalize_text_eq [of "normalize_text x"] keep)
  also have "\<dots> = normalize_text x"
    by (simp add: normalize_text_eq punct_idem)
  finally have idem: "normalize_text (normalize_text x) = normalize_text x" .
  have "\<forall>c \<in> set (normalize_text x). \<not> isspace c \<and> c \<notin> fst ` set punctuation_map"
  proof
    fix c assume c: "c \<in> set (normalize_text x)"
    then obtain d where "c = punct d" by (auto simp: normalize_text_eq)
    with c show "\<not> isspace c \<and> c \<notin> fst ` set punctuation_map"
      by (simp add: normalize_text_no_space punct_no_half_width)
  qed
  with idem show ?thesis by (simp add: list_all_iff)
qed

text \<open>
  Claim C9.  The normalized text is never longer than the raw text: whitespace is only
  deleted and each replacement puts one character for one.  So in the statistics of
  \<open>clean_ocr_text_file\<close> the cleaned length is at most the original length and the
  compression ratio is not negative.
\<close>

theorem normalize_text_length_le:
  "length (normalize_text x) \<le> length x
   \<and> (clean_ocr_text_file isdigit fs p = Inr r \<longrightarrow>
        cleaned_length (stats r) \<le> original_length (stats r)
        \<and> 0 \<le> compression_ratio (stats r))"
proof -
  have len: "length (normalize_text t) \<le> length t" for t
    by (simp add: normalize_text_eq)
  have "cleaned_length (stats r) \<le> original_length (stats r) \<and> 0 \<le> compression_ratio (stats r)"
    if ret: "clean_ocr_text_file isdigit fs p = Inr r"
  proof -
    from ret obtain raw where raw: "fs p = Some raw"
      by (cases "fs p") (simp_all add: clean_ocr_text_file_def)
    have nonempty: "raw \<noteq> []"
      using ret raw
      by (auto simp: clean_ocr_text_file_def extract_metadata_eq bind_def truediv_def Let_def)
    have st: "stats r =
        \<lparr>original_length = length raw,
         cleaned_length = length (normalize_text raw),
         sentence_count = length (split_into_sentences (normalize_text raw)),
         paragraph_count = length (split_into_paragraphs (normalize_text raw) 50),
         compression_ratio =
           (1 - of_nat (length (normalize_text raw)) / of_nat (length raw)) * 100\<rparr>"
      using ret raw nonempty
      by (auto simp: clean_ocr_text_file_def extract_metadata_eq bind_def truediv_def Let_def)
    define q :: rat where "q = of_nat (length (normalize_text raw)) / of_nat (length raw)"
    have q: "q \<le> 1"
      using len [of raw] nonempty by (simp add: q_def divide_le_eq_1)
    have ratio: "compression_ratio (stats r) = (1 - q) * 100"
      by (simp add: st q_def)
    have lens: "cleaned_length (stats r) = length (normalize_text raw)"
      "original_length (stats r) = length raw"
      by (simp_all add: st)
    show ?thesis
      unfolding ratio lens using q len [of raw] by simp
  qed
  with len show ?thesis by blast
qed

theorem normalize_text_length_le_witness:
  "length (normalize_text (ascii ''a b, c'')) \<le> length (ascii ''a b, c'')
   \<and> (\<exists>r. clean_ocr_text_file (\<lambda>c. 48 \<le> c \<and> c \<le> 57)
               [ascii ''a.txt'' \<mapsto> ascii ''a b, c''] (ascii ''a.txt'') = Inr r
            \<and> cleaned_length (stats r) \<le> original_length (stats r)
            \<and> 0 \<le> compression_ratio (stats r))"
proof -
  have "ascii ''a b, c'' \<noteq> []"
    by (simp add: ascii_def)
  then obtain r where
    r: "clean_ocr_text_file (\<lambda>c. 48 \<le> c \<and> c \<le> 57)
          [ascii ''a.txt'' \<mapsto> ascii ''a b, c''] (ascii ''a.txt'') = Inr r"
    using clean_ocr_text_file_returns
            [of "[ascii ''a.txt'' \<mapsto> ascii ''a b, c'']" "ascii ''a.txt''" "ascii ''a b, c''"]
    by simp
  with normalize_text_length_le
         [of "ascii ''a b, c''" "\<lambda>c. 48 \<le> c \<and> c \<le> 57"
             "[ascii ''a.txt'' \<mapsto> ascii ''a b, c'']" "ascii ''a.txt''" r]
  show ?thesis by blast
qed

section \<open>Properties of extract_metadata_from_filename\<close>

text \<open>
  Claim C7.  For every file name the function returns a dictionary and raises nothing.
  With the stem of the name split at underscores, the title is field 0; the date is
  \<open>YYYY-MM-DD\<close> cut from the first eight characters of field 1 when that field exists, has
  at least eight characters and its first eight are digits, and is empty otherwise; the
  page information is the fields from 2 on joined by underscores, empty when there are
  none.  The two examples of the specification come out as stated.
\<close>

theorem extract_metadata_from_filename_spec:
  "(let parts = split_on (\<lambda>c. c = 95) (path_stem filename); f1 = parts ! 1 in
      parts \<noteq> [] \<and>
      extract_metadata_from_filename isdigit filename =
        Inr \<lparr>title = hd parts,
             date = (if 2 \<le> length parts \<and> 8 \<le> length f1 \<and> list_all isdigit (take 8 f1)
                     then take 4 f1 @ ascii ''-'' @ take 2 (drop 4 f1) @ ascii ''-'' @
                          take 2 (drop 6 f1)
                     else []),
             page_info = (if 3 \<le> length parts then join (ascii ''_'') (drop 2 parts) else [])\<rparr>)
   \<and> ((\<forall>c. 48 \<le> c \<and> c \<le> 57 \<longrightarrow> isdigit c) \<longrightarrow>
        extract_metadata_from_filename isdigit (ascii ''A_20251126102506_11_342.txt'') =
          Inr \<lparr>title = ascii ''A'', date = ascii ''2025-11-26'', page_info = ascii ''11_342''\<rparr>)
   \<and> extract_metadata_from_filename isdigit (ascii ''justatitle.txt'') =
          Inr \<lparr>title = ascii ''justatitle'', date = [], page_info = []\<rparr>"
proof (intro conjI)
  have "drop 2 parts = []" if "\<not> 3 \<le> length parts" for parts :: "ustring list"
    using that by simp
  then show "let parts = split_on (\<lambda>c. c = 95) (path_stem filename); f1 = parts ! 1 in
      parts \<noteq> [] \<and>
      extract_metadata_from_filename isdigit filename =
        Inr \<lparr>title = hd parts,
             date = (if 2 \<le> length parts \<and> 8 \<le> length f1 \<and> list_all isdigit (take 8 f1)
                     then take 4 f1 @ ascii ''-'' @ take 2 (drop 4 f1) @ ascii ''-'' @
                          take 2 (drop 6 f1)
                     else []),
             page_info = (if 3 \<le> length parts then join (ascii ''_'') (drop 2 parts) else [])\<rparr>"
    by (simp add: extract_metadata_eq split_on_not_Nil Let_def ascii_def)
next
  show "(\<forall>c. 48 \<le> c \<and> c \<le> 57 \<longrightarrow> isdigit c) \<longrightarrow>
        extract_metadata_from_filename isdigit (ascii ''A_20251126102506_11_342.txt'') =
          Inr \<lparr>title = ascii ''A'', date = ascii ''2025-11-26'', page_info = ascii ''11_342''\<rparr>"
    by (simp add: extract_metadata_eq ascii_def path_stem_def path_name_def rfind_def Let_def)
next
  show "extract_metadata_from_filename isdigit (ascii ''justatitle.txt'') =
          Inr \<lparr>title = ascii ''justatitle'', date = [], page_info = []\<rparr>"
    by (simp add: extract_metadata_eq ascii_def path_stem_def path_name_def rfind_def Let_def)
qed

theorem extract_metadata_from_filename_spec_witness:
  "extract_metadata_from_filename (\<lambda>c. 48 \<le> c \<and> c \<le> 57) (ascii ''A_20251126102506_11_342.txt'') =
     Inr \<lparr>title = ascii ''A'', date = ascii ''2025-11-26'', page_info = ascii ''11_342''\<rparr>"
  using extract_metadata_from_filename_spec [of "ascii ''x''" "\<lambda>c. 48 \<le> c \<and> c \<le> 57"]
  by simp

section \<open>Properties of split_into_paragraphs\<close>

lemma para_step_invariant:
  "\<forall>p\<in>set ps. m \<le> int (length p) \<Longrightarrow>
   \<forall>p\<in>set (fst (foldl (para_step m) (ps, cur) ss)). m \<le> int (length p)"
proof (induction ss arbitrary: ps cur)
  case Nil
  then show ?case by simp
next
  case (Cons s ss)
  obtain ps' cur' where step: "para_step m (ps, cur) s = (ps', cur')"
    by (cases "para_step m (ps, cur) s")
  have "\<forall>p\<in>set ps'. m \<le> int (length p)"
    using step Cons.prems by (auto split: if_splits)
  then have "\<forall>p\<in>set (fst (foldl (para_step m) (ps', cur') ss)). m \<le> int (length p)"
    by (rule Cons.IH)
  moreover have "foldl (para_step m) (ps, cur) (s # ss) = foldl (para_step m) (ps', cur') ss"
    by (simp only: foldl_Cons step)
  ultimately show ?case by simp
qed

text \<open>
  Claim C2.  Every paragraph that \<open>split_into_paragraphs\<close> returns has at least
  \<open>min_length\<close> characters, for every \<open>min_length\<close> (50 by default).  A buffer shorter than
  \<open>min_length\<close> is not emitted when a pending sentence displaces it, the buffer then being
  replaced by the sentence, nor by the final flush: its text is dropped.
\<close>

theorem split_into_paragraphs_min_length:
  "(\<forall>p\<in>set (split_into_paragraphs text min_length). min_length \<le> int (length p))
   \<and> (500 \<le> length current_para + length sentence \<and> int (length current_para) < min_length \<longrightarrow>
        para_step min_length (emitted, current_para) sentence =
          (emitted, sentence @ [12290]))
   \<and> (int (length current_para) < min_length \<longrightarrow>
        para_flush min_length (emitted, current_para) = emitted)"
proof -
  obtain ps cur where
    st: "foldl (para_step min_length) ([], []) (split_into_sentences text) = (ps, cur)"
    by (cases "foldl (para_step min_length) ([], []) (split_into_sentences text)")
  have "\<forall>p\<in>set ps. min_length \<le> int (length p)"
    using para_step_invariant [of "[]" min_length "[]" "split_into_sentences text"] st by simp
  then have "\<forall>p\<in>set (split_into_paragraphs text min_length). min_length \<le> int (length p)"
    by (simp add: split_into_paragraphs_def st)
  then show ?thesis by simp
qed

theorem split_into_paragraphs_min_length_witness:
  "split_into_paragraphs (ascii ''abcdefg'' @ [12290]) 5 = [ascii ''abcdefg'' @ [12290]]
   \<and> (5::int) \<le> int (length (ascii ''abcdefg'' @ [12290]))
   \<and> split_into_paragraphs (ascii ''abcdefg'' @ [12290]) 50 = []
   \<and> para_step 50 ([], ascii ''abc'') (replicate 500 97) = ([], replicate 500 97 @ [12290])
   \<and> para_flush 50 ([], ascii ''abc'') = []"
proof -
  have a: "split_into_paragraphs (ascii ''abcdefg'' @ [12290]) 5 = [ascii ''abcdefg'' @ [12290]]"
    by (simp add: split_into_paragraphs_def split_into_sentences_def strip_def isspace_def
          sentence_end_def ascii_def)
  have b: "split_into_paragraphs (ascii ''abcdefg'' @ [12290]) 50 = []"
    by (simp add: split_into_paragraphs_def split_into_sentences_def strip_def isspace_def
          sentence_end_def ascii_def)
  have c: "500 \<le> length (ascii ''abc'') + length (replicate 500 (97::nat))
           \<and> int (length (ascii ''abc'')) < 50"
    by (simp add: ascii_def)
  from split_into_paragraphs_min_length
         [of "ascii ''abcdefg'' @ [12290]" 5 "ascii ''abc''" "replicate 500 97" "[]"]
  have "5 \<le> int (length (ascii ''abcdefg'' @ [12290]))"
    by (simp add: a)
  moreover from c split_into_paragraphs_min_length
         [of "[]" 50 "ascii ''abc''" "replicate 500 97" "[]"]
  have "para_step 50 ([], ascii ''abc'') (replicate 500 97) = ([], replicate 500 97 @ [12290])
        \<and> para_flush 50 ([], ascii ''abc'') = []"
    by blast
  ultimately show ?thesis using a b by blast
qed

section \<open>Properties of clean_ocr_text_file\<close>

text \<open>
  Claim C1.  The statistics divide the cleaned length by the original length with no
  guard: on a file whose content is the empty string the division raises
  \<open>ZeroDivisionError\<close> and no statistics are returned.
\<close>

theorem clean_ocr_text_file_empty_input:
  "fs input_path = Some [] \<Longrightarrow>
   clean_ocr_text_file isdigit fs input_path = Inl ZeroDivisionError"
  by (simp add: clean_ocr_text_file_def extract_metadata_eq bind_def truediv_def Let_def)

theorem clean_ocr_text_file_empty_input_witness:
  "clean_ocr_text_file (\<lambda>c. 48 \<le> c \<and> c \<le> 57) [ascii ''empty.txt'' \<mapsto> []] (ascii ''empty.txt'')
     = Inl ZeroDivisionError"
  by (rule clean_ocr_text_file_empty_input) simp

section \<open>Properties of filter_garbled_text\<close>

lemma strip_eq_Nil: "strip s = [] \<longleftrightarrow> (\<forall>c\<in>set s. isspace c)"
proof
  assume "strip s = []"
  then have all: "\<forall>c\<in>set (dropWhile isspace s). isspace c"
    by (simp add: strip_def dropWhile_eq_Nil_conv)
  have "dropWhile isspace s = []"
  proof (rule ccontr)
    assume ne: "dropWhile isspace s \<noteq> []"
    then have "\<not> isspace (hd (dropWhile isspace s))" by (rule hd_dropWhile)
    moreover have "hd (dropWhile isspace s) \<in> set (dropWhile isspace s)"
      using ne by (rule hd_in_set)
    ultimately show False using all by blast
  qed
  then show "\<forall>c\<in>set s. isspace c" by (simp add: dropWhile_eq_Nil_conv)
next
  assume "\<forall>c\<in>set s. isspace c"
  then have d: "dropWhile isspace s = []" by (simp add: dropWhile_eq_Nil_conv)
  show "strip s = []" unfolding strip_def d by simp
qed

lemma filter_lines_eq:
  "filter_lines isalnum ls acc = acc @ filter (retained isalnum) ls"
  by (induction ls arbitrary: acc)
     (auto simp: retained_def blank_def normal_ratio_def Let_def strip_def not_less)

lemma join_Cons_Cons: "join sep ((c # f) # fs) = c # join sep (f # fs)"
  by (cases fs) simp_all

lemma join_split_on: "join [d] (split_on (\<lambda>c. c = d) t) = t"
proof (induction t)
  case Nil
  show ?case by simp
next
  case (Cons c cs)
  obtain f fs where sp: "split_on (\<lambda>c. c = d) cs = f # fs"
    using split_on_not_Nil [of "\<lambda>c. c = d" cs] by (cases "split_on (\<lambda>c. c = d) cs") auto
  with Cons show ?case by (simp add: join_Cons_Cons)
qed

lemma split_on_no_delim: "l \<in> set (split_on d t) \<Longrightarrow> c \<in> set l \<Longrightarrow> \<not> d c"
proof (induction t arbitrary: l)
  case Nil
  then show ?case by simp
next
  case (Cons a t)
  obtain f fs where sp: "split_on d t = f # fs"
    using split_on_not_Nil [of d t] by (cases "split_on d t") auto
  have ih: "\<not> d c" if "l' \<in> set (f # fs)" "c \<in> set l'" for l'
    using that Cons.IH [of l'] sp by simp
  show ?case
  proof (cases "d a")
    case True
    with Cons.prems sp have "l = [] \<or> l \<in> set (f # fs)" by auto
    with Cons.prems(2) ih show ?thesis by auto
  next
    case False
    with Cons.prems sp have "l = a # f \<or> l \<in> set fs" by auto
    then show ?thesis
    proof
      assume "l = a # f"
      with Cons.prems(2) have "c = a \<or> c \<in> set f" by auto
      then show ?thesis using False ih [of f] by auto
    next
      assume "l \<in> set fs"
      then show ?thesis using Cons.prems(2) ih [of l] by simp
    qed
  qed
qed

lemma split_on_chars: "l \<in> set (split_on d t) \<Longrightarrow> set l \<subseteq> set t"
proof (induction t arbitrary: l)
  case Nil
  then show ?case by simp
next
  case (Cons a t)
  obtain f fs where sp: "split_on d t = f # fs"
    using split_on_not_Nil [of d t] by (cases "split_on d t") auto
  from Cons.prems Cons.IH sp show ?case
    by (fastforce split: if_splits)
qed

lemma split_on_append:
  "\<forall>c\<in>set l. \<not> d c \<Longrightarrow> split_on d (l @ rest) = (l @ hd (split_on d rest)) # tl (split_on d rest)"
proof (induction l)
  case Nil
  show ?case using split_on_not_Nil [of d rest] by simp
next
  case (Cons a l)
  then show ?case by simp
qed

lemma split_on_join:
  "ls \<noteq> [] \<Longrightarrow> \<forall>l\<in>set ls. \<forall>c\<in>set l. \<not> d c \<Longrightarrow> d s \<Longrightarrow> split_on d (join [s] ls) = ls"
proof (induction "[s]" ls rule: join.induct)
  case 1
  then show ?case by simp
next
  case (2 x)
  then show ?case using split_on_append [of x d "[]"] by simp
next
  case (3 x y ys)
  then have "split_on d (join [s] (y # ys)) = y # ys" by simp
  with 3 show ?case using split_on_append [of x d "s # join [s] (y # ys)"] by simp
qed

lemma re_search_noise_iff:
  "re_search_noise line \<longleftrightarrow>
   (\<exists>i n. 10 \<le> n \<and> i + n \<le> length line \<and> (\<forall>j<n. line ! (i + j) \<in> set noise_symbols))"
  (is "?L \<longleftrightarrow> ?R")
proof
  let ?P = "\<lambda>c. c \<in> set noise_symbols"
  assume ?L
  then obtain i where i: "i < length line" "10 \<le> length (takeWhile ?P (drop i line))"
    by (auto simp: re_search_noise_def list_ex_iff)
  have le: "length (takeWhile ?P (drop i line)) \<le> length (drop i line)"
    by (rule length_takeWhile_le)
  have "line ! (i + j) \<in> set noise_symbols" if "j < 10" for j
  proof -
    have j: "j < length (takeWhile ?P (drop i line))" using that i by simp
    then have "takeWhile ?P (drop i line) ! j = drop i line ! j"
      by (rule takeWhile_nth)
    moreover have "takeWhile ?P (drop i line) ! j \<in> set (takeWhile ?P (drop i line))"
      using j by (rule nth_mem)
    ultimately have "?P (drop i line ! j)"
      by (auto dest: set_takeWhileD)
    then show ?thesis using i le by simp
  qed
  moreover have "i + 10 \<le> length line" using i le by simp
  ultimately show ?R by blast
next
  let ?P = "\<lambda>c. c \<in> set noise_symbols"
  assume ?R
  then obtain i n where n: "10 \<le> n" "i + n \<le> length line"
    and all: "\<forall>j<n. line ! (i + j) \<in> set noise_symbols" by blast
  have "n \<le> length (takeWhile ?P (drop i line))"
  proof (rule ccontr)
    assume "\<not> ?thesis"
    then have k: "length (takeWhile ?P (drop i line)) < n" by simp
    with n have "length (takeWhile ?P (drop i line)) < length (drop i line)" by simp
    then have "\<not> ?P (drop i line ! length (takeWhile ?P (drop i line)))"
      by (rule nth_length_takeWhile)
    moreover have "?P (line ! (i + length (takeWhile ?P (drop i line))))"
      using all k by blast
    ultimately show False using n k by simp
  qed
  with n have "i < length line" "10 \<le> length (takeWhile ?P (drop i line))" by simp_all
  then show ?L by (auto simp: re_search_noise_def list_ex_iff)
qed

lemma blank_retained: "blank l \<Longrightarrow> retained isalnum l"
  by (simp add: retained_def)

lemma filter_garbled_text_kept:
  "strip text \<noteq> [] \<Longrightarrow>
   filter_garbled_text isalnum text = join [10] (filter (retained isalnum) (split_lines text))"
  by (simp add: filter_garbled_text_def filter_lines_eq split_lines_def)

lemma split_lines_join:
  assumes "kept \<noteq> []" and "set kept \<subseteq> set (split_lines text)"
  shows "split_lines (join [10] kept) = kept"
proof -
  have "\<forall>l\<in>set kept. \<forall>c\<in>set l. \<not> c = 10"
    using assms(2) split_on_no_delim [of _ "\<lambda>c. c = 10" "text"]
    by (auto simp: split_lines_def)
  with assms(1) show ?thesis
    unfolding split_lines_def by (intro split_on_join) auto
qed

lemma blank_text_lines: "strip text = [] \<Longrightarrow> l \<in> set (split_lines text) \<Longrightarrow> blank l"
  using split_on_chars [of l "\<lambda>c. c = 10" "text"]
  by (auto simp: strip_eq_Nil blank_def split_lines_def)

lemma output_lines:
  "filter_garbled_text isalnum text = text \<and> strip text = []
   \<or> filter (retained isalnum) (split_lines text) = [] \<and> filter_garbled_text isalnum text = []
   \<or> split_lines (filter_garbled_text isalnum text) = filter (retained isalnum) (split_lines text)
      \<and> filter_garbled_text isalnum text = join [10] (filter (retained isalnum) (split_lines text))"
proof (cases "strip text = []")
  case True
  then show ?thesis by (simp add: filter_garbled_text_def)
next
  case False
  note out = filter_garbled_text_kept [OF False, of isalnum]
  show ?thesis
  proof (cases "filter (retained isalnum) (split_lines text) = []")
    case True
    with out show ?thesis by simp
  next
    case False
    then have "split_lines (join [10] (filter (retained isalnum) (split_lines text))) =
               filter (retained isalnum) (split_lines text)"
      by (rule split_lines_join) auto
    with out show ?thesis by simp
  qed
qed

lemma filter_garbled_text_example: "filter_garbled_text ascii_alnum (ascii ''ab'' @ [10] @ ascii ''@@@@@@@@@@@@'' @ [10, 10] @ ascii ''cd'')
   = ascii ''ab'' @ [10, 10] @ ascii ''cd''"
  by (simp add: filter_garbled_text_def split_lines_def ascii_def strip_def isspace_def
        normal_char_def ascii_alnum_def normal_punctuation_def re_search_noise_def
        noise_symbols_def)

lemma split_lines_example: "split_lines (ascii ''ab'' @ [10, 10] @ ascii ''cd'') = [ascii ''ab'', [], ascii ''cd'']"
  by (simp add: split_lines_def ascii_def)

text \<open>
  What the loop guarantees is stated over the class the pattern matches: every line of
  the output that is not blank has a fraction of at least 0.4 of characters of that class
  and no ten consecutive characters of the noise class, and the blank lines of the input
  are all retained, in their order.
\<close>

lemma filter_garbled_text_pattern_invariant:
  "(\<forall>line\<in>set (split_lines (filter_garbled_text isalnum text)).
      \<not> blank line \<longrightarrow>
        4 / 10 \<le> normal_ratio isalnum line
        \<and> \<not> (\<exists>i n. 10 \<le> n \<and> i + n \<le> length line
                    \<and> (\<forall>j<n. line ! (i + j) \<in> set noise_symbols)))
   \<and> subseq (filter blank (split_lines text))
             (split_lines (filter_garbled_text isalnum text))"
proof -
  let ?out = "filter_garbled_text isalnum text"
  let ?kept = "filter (retained isalnum) (split_lines text)"
  have blanks: "filter blank ?kept = filter blank (split_lines text)"
    by (auto intro: filter_cong simp: blank_retained)
  consider (same) "?out = text" "strip text = []"
    | (none) "?kept = []" "?out = []"
    | (kept) "split_lines ?out = ?kept"
    using output_lines [of isalnum "text"] by blast
  then show ?thesis
  proof cases
    case same
    then show ?thesis by (auto simp: blank_text_lines)
  next
    case none
    have "filter blank (split_lines text) = []"
      using blanks none(1) by simp
    moreover have "blank []" by (simp add: blank_def strip_def)
    ultimately show ?thesis using none(2) by (simp add: split_lines_def)
  next
    case kept
    have "subseq (filter blank ?kept) ?kept" by (rule subseq_filter_left)
    then have "subseq (filter blank (split_lines text)) (split_lines ?out)"
      by (simp only: blanks kept)
    moreover have "4 / 10 \<le> normal_ratio isalnum line
        \<and> \<not> (\<exists>i n. 10 \<le> n \<and> i + n \<le> length line
                    \<and> (\<forall>j<n. line ! (i + j) \<in> set noise_symbols))"
      if "line \<in> set (split_lines ?out)" "\<not> blank line" for line
    proof -
      from that kept have "retained isalnum line" by simp
      with that(2) show ?thesis
        by (simp add: retained_def re_search_noise_iff)
    qed
    ultimately show ?thesis by blast
  qed
qed

lemma underscore_line_kept:
  "filter_garbled_text isalnum (ascii ''a________'') = ascii ''a________''"
  by (cases "isalnum 97")
     (simp_all add: filter_garbled_text_def split_lines_def ascii_def strip_def isspace_def
        normal_char_def normal_punctuation_def re_search_noise_def noise_symbols_def)

lemma underscore_line_ratio:
  "\<not> blank (ascii ''a________'') \<and> spec_allow_ratio (ascii ''a________'') = 1 / 9"
  by (simp add: blank_def spec_allow_ratio_def spec_allow_char_def ascii_def strip_def
        isspace_def normal_punctuation_def)

lemma cyrillic_line_kept:
  "list_all isalnum cyrillic_word \<Longrightarrow> filter_garbled_text isalnum cyrillic_word = cyrillic_word"
  by (simp add: cyrillic_word_def filter_garbled_text_def split_lines_def strip_def isspace_def
        normal_char_def normal_punctuation_def re_search_noise_def noise_symbols_def)

lemma cyrillic_line_ratio:
  "\<not> blank cyrillic_word \<and> spec_allow_ratio cyrillic_word = 0"
  by (simp add: cyrillic_word_def blank_def spec_allow_ratio_def spec_allow_char_def strip_def
        isspace_def normal_punctuation_def)

text \<open>
  Claim C3.  The fraction the filter computes is not that of the allow-set of the
  specification: \<open>\w\<close> also matches the underscore and the letters and digits of every
  script.  The line \<open>a________\<close> is retained, whatever the table \<open>isalnum\<close>, with a ninth
  of its characters in the allow-set; a line of six Cyrillic letters is retained with
  none.
\<close>

theorem filter_garbled_text_keeps_word_characters:
  "split_lines (filter_garbled_text isalnum (ascii ''a________'')) = [ascii ''a________'']
   \<and> \<not> blank (ascii ''a________'')
   \<and> spec_allow_ratio (ascii ''a________'') = 1 / 9
   \<and> (list_all isalnum cyrillic_word \<longrightarrow>
        split_lines (filter_garbled_text isalnum cyrillic_word) = [cyrillic_word]
        \<and> \<not> blank cyrillic_word
        \<and> spec_allow_ratio cyrillic_word = 0)"
proof -
  have "split_lines (ascii ''a________'') = [ascii ''a________'']"
    by (simp add: split_lines_def ascii_def)
  moreover have "split_lines cyrillic_word = [cyrillic_word]"
    by (simp add: split_lines_def cyrillic_word_def)
  ultimately show ?thesis
    using underscore_line_ratio cyrillic_line_ratio
    by (simp add: underscore_line_kept cyrillic_line_kept)
qed

theorem filter_garbled_text_keeps_word_characters_witness:
  "list_all ascii_cyrillic_alnum cyrillic_word
   \<and> split_lines (filter_garbled_text ascii_cyrillic_alnum cyrillic_word) = [cyrillic_word]
   \<and> spec_allow_ratio cyrillic_word = 0
   \<and> spec_allow_ratio cyrillic_word < 4 / 10"
proof -
  have t: "list_all ascii_cyrillic_alnum cyrillic_word"
    by (simp add: ascii_cyrillic_alnum_def cyrillic_word_def)
  with filter_garbled_text_keeps_word_characters [of ascii_cyrillic_alnum]
  show ?thesis by simp
qed

text \<open>
  Claim C10.  The output is the lines of a subsequence of the input's lines joined by
  newlines: each retained line is a line of the input, unchanged, and the order is kept.
  When at least one line is retained, splitting the output into lines gives exactly that
  subsequence.  When none is retained the output is the empty string, which splits into
  one empty line.
\<close>

theorem filter_garbled_text_subseq:
  "\<exists>kept. subseq kept (split_lines text)
     \<and> filter_garbled_text isalnum text = join [10] kept
     \<and> (kept = [] \<or> split_lines (filter_garbled_text isalnum text) = kept)"
proof -
  let ?kept = "filter (retained isalnum) (split_lines text)"
  consider (same) "filter_garbled_text isalnum text = text" "strip text = []"
    | (none) "?kept = []" "filter_garbled_text isalnum text = []"
    | (kept) "split_lines (filter_garbled_text isalnum text) = ?kept"
        "filter_garbled_text isalnum text = join [10] ?kept"
    using output_lines [of isalnum "text"] by blast
  then show ?thesis
  proof cases
    case same
    have "join [10] (split_lines text) = text"
      unfolding split_lines_def by (rule join_split_on)
    with same(1) have "subseq (split_lines text) (split_lines text)
      \<and> filter_garbled_text isalnum text = join [10] (split_lines text)
      \<and> split_lines (filter_garbled_text isalnum text) = split_lines text"
      by simp
    then show ?thesis by blast
  next
    case none
    then have "subseq [] (split_lines text) \<and> filter_garbled_text isalnum text = join [10] []"
      by simp
    then show ?thesis by blast
  next
    case kept
    have "subseq ?kept (split_lines text)" by simp
    with kept show ?thesis by blast
  qed
qed

theorem filter_garbled_text_subseq_witness:
  "\<exists>kept. subseq kept (split_lines
        (ascii ''ab'' @ [10] @ ascii ''@@@@@@@@@@@@'' @ [10, 10] @ ascii ''cd''))
     \<and> kept = [ascii ''ab'', [], ascii ''cd'']
     \<and> filter_garbled_text ascii_alnum
           (ascii ''ab'' @ [10] @ ascii ''@@@@@@@@@@@@'' @ [10, 10] @ ascii ''cd'') =
         join [10] kept"
proof -
  let ?t = "ascii ''ab'' @ [10] @ ascii ''@@@@@@@@@@@@'' @ [10, 10] @ ascii ''cd''"
  have out: "split_lines (filter_garbled_text ascii_alnum ?t) = [ascii ''ab'', [], ascii ''cd'']"
    by (simp only: filter_garbled_text_example split_lines_example)
  from filter_garbled_text_subseq [of ?t ascii_alnum]
  obtain kept where kept: "subseq kept (split_lines ?t)"
      "filter_garbled_text ascii_alnum ?t = join [10] kept"
      "kept = [] \<or> split_lines (filter_garbled_text ascii_alnum ?t) = kept"
    by blast
  have "kept \<noteq> []"
  proof
    assume "kept = []"
    with kept(2) have "split_lines (filter_garbled_text ascii_alnum ?t) = [[]]"
      by (simp add: split_lines_def)
    with out show False by simp
  qed
  with kept(3) out have "kept = [ascii ''ab'', [], ascii ''cd'']" by simp
  with kept(1,2) show ?thesis by blast
qed

text \<open>
  On the two lines \<open>@@@\<close> and \<open>###\<close> both are dropped; the lines of the output, the
  empty string, are the one empty line, which is no line of the input.
\<close>

theorem filter_garbled_text_subseq_counterexample:
  "\<not> subseq (split_lines (filter_garbled_text ascii_alnum (ascii ''@@@'' @ [10] @ ascii ''###'')))
             (split_lines (ascii ''@@@'' @ [10] @ ascii ''###''))"
proof -
  have "filter_garbled_text ascii_alnum (ascii ''@@@'' @ [10] @ ascii ''###'') = []"
    by (simp add: filter_garbled_text_def split_lines_def ascii_def strip_def isspace_def
          normal_char_def ascii_alnum_def normal_punctuation_def)
  moreover have "split_lines (ascii ''@@@'' @ [10] @ ascii ''###'') = [ascii ''@@@'', ascii ''###'']"
    by (simp add: split_lines_def ascii_def)
  ultimately show ?thesis
    by (simp add: split_lines_def ascii_def)
qed

section \<open>Properties of the slicing loop\<close>

lemma recognise_slice_clips [simp]:
  "clips (recognise_slice eng isalnum page_idx slice_idx clip_rect st) = clips st"
  by (simp add: recognise_slice_def Let_def split: option.splits)

lemma recognise_slice_queries [simp]:
  "queries (recognise_slice eng isalnum page_idx slice_idx clip_rect st) = Suc (queries st)"
  by (simp add: recognise_slice_def Let_def split: option.splits)

lemma clip_from_shift: "clip_from H (y + (chunk_h - overlap)) i = clip_from H y (Suc i)"
  by (simp add: clip_from_def algebra_simps)

lemma slice_loop_clips:
  "real_of_int y < H \<Longrightarrow>
   \<exists>n. 0 < n
     \<and> clips (slice_loop eng isalnum page_idx H y k st) = clips st @ map (clip_from H y) [0..<n]
     \<and> H \<le> snd (clip_from H y (n - 1))
     \<and> (\<forall>i. Suc i < n \<longrightarrow> snd (clip_from H y i) < H)"
proof (induction eng isalnum page_idx H y k st rule: slice_loop.induct)
  case (1 eng isalnum page_idx page_h y slice_idx st)
  let ?clip = "(real_of_int y, min (real_of_int (y + chunk_h)) page_h)"
  have c0: "clip_from page_h y 0 = ?clip" by (simp add: clip_from_def)
  show ?case
  proof (cases "page_h \<le> min (real_of_int (y + chunk_h)) page_h")
    case True
    with "1.prems" have "clips (slice_loop eng isalnum page_idx page_h y slice_idx st) =
        clips st @ map (clip_from page_h y) [0..<1]"
      by (simp add: slice_loop.simps [of eng isalnum page_idx page_h y] c0)
    moreover have "page_h \<le> snd (clip_from page_h y (1 - 1))"
      using True by (simp add: c0)
    ultimately show ?thesis by (intro exI [of _ 1]) simp
  next
    case False
    let ?st = "recognise_slice eng isalnum page_idx (slice_idx + 1) ?clip
                 (st\<lparr>clips := clips st @ [?clip]\<rparr>)"
    let ?y = "y + (chunk_h - overlap)"
    have next_lt: "real_of_int ?y < page_h"
      using False by (simp add: chunk_h_def overlap_def min_def split: if_splits)
    from "1.IH" [OF "1.prems" False next_lt]
    obtain n where n: "0 < n"
      "clips (slice_loop eng isalnum page_idx page_h ?y (slice_idx + 1) ?st) =
         clips ?st @ map (clip_from page_h ?y) [0..<n]"
      "page_h \<le> snd (clip_from page_h ?y (n - 1))"
      "\<forall>i. Suc i < n \<longrightarrow> snd (clip_from page_h ?y i) < page_h"
      by blast
    have unfold: "slice_loop eng isalnum page_idx page_h y slice_idx st =
        slice_loop eng isalnum page_idx page_h ?y (slice_idx + 1) ?st"
      using "1.prems" False by (simp add: slice_loop.simps [of eng isalnum page_idx page_h y])
    have "clips (slice_loop eng isalnum page_idx page_h y slice_idx st) =
        clips st @ map (clip_from page_h y) [0..<Suc n]"
      unfolding unfold n(2) map_upt_Suc [of _ n] by (simp add: c0 clip_from_shift)
    moreover have "page_h \<le> snd (clip_from page_h y (Suc n - 1))"
      using n(1,3) by (cases n) (simp_all add: clip_from_shift)
    moreover have "snd (clip_from page_h y i) < page_h" if "Suc i < Suc n" for i
    proof (cases i)
      case 0
      then show ?thesis using False by (simp add: c0)
    next
      case (Suc j)
      with that n(4) show ?thesis by (simp add: clip_from_shift [symmetric])
    qed
    ultimately show ?thesis by (intro exI [of _ "Suc n"]) simp
  qed
qed

lemma clip_from_0:
  "clip_from H 0 i = (1400 * real i, min (1400 * real i + 1500) H)"
  by (simp add: clip_from_def chunk_h_def overlap_def)

text \<open>
  Claim C4.  For a page of height \<open>H > 0\<close> the loop, which is total, renders the clips
  \<open>[y, min (y + 1500) H)\<close> for \<open>y = 0, 1400, 2800, \<dots>\<close> in this order, whatever the engine
  answers.  It stops at the first clip whose lower edge reaches \<open>H\<close>; the number \<open>n\<close> of
  clips is at least 1 and at most the ceiling of \<open>H / (1500 - 100)\<close>; every point of
  \<open>[0, H)\<close> lies in a clip.
\<close>

theorem slice_loop_coverage:
  assumes "0 < H"
  shows "\<exists>n. clips (slice_loop eng isalnum page_idx H 0 k st) =
              clips st @ map (clip_from H 0) [0..<n]
     \<and> 0 < n \<and> int n \<le> \<lceil>H / real_of_int (chunk_h - overlap)\<rceil>
     \<and> H \<le> snd (clip_from H 0 (n - 1))
     \<and> (\<forall>i. Suc i < n \<longrightarrow> snd (clip_from H 0 i) < H)
     \<and> (\<forall>t. 0 \<le> t \<and> t < H \<longrightarrow>
           (\<exists>i<n. fst (clip_from H 0 i) \<le> t \<and> t < snd (clip_from H 0 i)))
     \<and> (\<forall>i. clip_from H 0 i = (1400 * real i, min (1400 * real i + 1500) H))
     \<and> chunk_h = 1500 \<and> overlap = 100"
proof -
  from assms have "real_of_int 0 < H" by simp
  from slice_loop_clips [OF this, of eng isalnum page_idx k st]
  obtain n where n: "0 < n"
    and shape: "clips (slice_loop eng isalnum page_idx H 0 k st) =
                  clips st @ map (clip_from H 0) [0..<n]"
    and last: "H \<le> snd (clip_from H 0 (n - 1))"
    and before: "\<forall>i. Suc i < n \<longrightarrow> snd (clip_from H 0 i) < H"
    by blast
  have last': "H \<le> 1400 * real (n - 1) + 1500"
    using last by (simp add: clip_from_0)
  have before': "1400 * real i + 1500 < H" if "Suc i < n" for i
  proof -
    from before that have "snd (clip_from H 0 i) < H" by blast
    then show ?thesis by (simp add: clip_from_0 min_def split: if_splits)
  qed
  have bound: "int n \<le> \<lceil>H / real_of_int (chunk_h - overlap)\<rceil>"
  proof (cases "n = 1")
    case True
    have "0 < \<lceil>H / 1400\<rceil>" using assms by simp
    with True show ?thesis by (simp add: chunk_h_def overlap_def)
  next
    case False
    with n obtain m where m: "n = Suc (Suc m)" by (cases n; cases "n - 1") auto
    from before' [of m] m have "1400 * real m + 1500 < H" by simp
    then have "real_of_int (int (Suc m)) < H / 1400" by simp
    then have "int (Suc m) < \<lceil>H / 1400\<rceil>" by (simp only: less_ceiling_iff)
    with m show ?thesis by (simp add: chunk_h_def overlap_def)
  qed
  have cover: "\<exists>i<n. fst (clip_from H 0 i) \<le> t \<and> t < snd (clip_from H 0 i)"
    if t: "0 \<le> t" "t < H" for t
  proof -
    define m where "m = nat \<lfloor>t / 1400\<rfloor>"
    have m_le: "1400 * real m \<le> t"
    proof -
      have "0 \<le> \<lfloor>t / 1400\<rfloor>" using t(1) by simp
      then have "real m = of_int \<lfloor>t / 1400\<rfloor>" by (simp add: m_def)
      moreover have "of_int \<lfloor>t / 1400\<rfloor> \<le> t / 1400" by (rule of_int_floor_le)
      ultimately show ?thesis by simp
    qed
    have m_gt: "t < 1400 * real m + 1400"
    proof -
      have "0 \<le> \<lfloor>t / 1400\<rfloor>" using t(1) by simp
      then have "real m = of_int \<lfloor>t / 1400\<rfloor>" by (simp add: m_def)
      moreover have "t / 1400 < of_int \<lfloor>t / 1400\<rfloor> + 1" by linarith
      ultimately show ?thesis by linarith
    qed
    show ?thesis
    proof (cases "m < n")
      case True
      have "fst (clip_from H 0 m) \<le> t \<and> t < snd (clip_from H 0 m)"
        using m_le m_gt t(2) by (simp add: clip_from_0)
      with True show ?thesis by blast
    next
      case False
      then have "real (n - 1) \<le> real m" using n by simp
      then have "1400 * real (n - 1) \<le> t" using m_le by simp
      then have "fst (clip_from H 0 (n - 1)) \<le> t \<and> t < snd (clip_from H 0 (n - 1))"
        using t(2) last' by (simp add: clip_from_0)
      moreover have "n - 1 < n" using n by simp
      ultimately show ?thesis by blast
    qed
  qed
  from n shape bound last before cover show ?thesis
    by (intro exI [of _ n]) (simp add: chunk_h_def overlap_def clip_from_0 [symmetric])
qed

theorem slice_loop_coverage_witness:
  "(0::real) < 2000
   \<and> (\<exists>n. clips (slice_loop changing_engine ascii_alnum 0 2000 0 0 init_state) =
              map (clip_from 2000 0) [0..<n]
          \<and> 0 < n \<and> int n \<le> 2
          \<and> (\<exists>i<n. fst (clip_from 2000 0 i) \<le> 1450 \<and> 1450 < snd (clip_from 2000 0 i)))"
proof -
  have pos: "(0::real) < 2000" by simp
  have ceil: "\<lceil>(2000::real) / real_of_int (chunk_h - overlap)\<rceil> = 2"
    by (simp add: chunk_h_def overlap_def)
  have t: "(0::real) \<le> 1450 \<and> (1450::real) < 2000" by simp
  from slice_loop_coverage [OF pos, of changing_engine ascii_alnum 0 0 init_state] ceil t
  have "\<exists>n. clips (slice_loop changing_engine ascii_alnum 0 2000 0 0 init_state) =
              clips init_state @ map (clip_from 2000 0) [0..<n]
          \<and> 0 < n \<and> int n \<le> 2
          \<and> (\<exists>i<n. fst (clip_from 2000 0 i) \<le> 1450 \<and> 1450 < snd (clip_from 2000 0 i))"
    by (metis (no_types, lifting))
  then show ?thesis using pos by (simp add: init_state_def)
qed

lemma slice_loop_queries:
  "queries (slice_loop eng isalnum page_idx H y k st) + length (clips st) =
   queries st + length (clips (slice_loop eng isalnum page_idx H y k st))"
proof (induction eng isalnum page_idx H y k st rule: slice_loop.induct)
  case (1 eng isalnum page_idx page_h y slice_idx st)
  show ?case
  proof (cases "real_of_int y < page_h")
    case False
    then show ?thesis by (simp add: slice_loop.simps [of eng isalnum page_idx page_h y])
  next
    case True
    show ?thesis
    proof (cases "page_h \<le> min (real_of_int (y + chunk_h)) page_h")
      case stop: True
      with True show ?thesis
        by (simp add: slice_loop.simps [of eng isalnum page_idx page_h y])
    next
      case go: False
      from "1.IH" [OF True go] True go show ?thesis
        by (simp add: slice_loop.simps [of eng isalnum page_idx page_h y])
    qed
  qed
qed

lemma pages_queries:
  "queries (foldl (\<lambda>st (page_idx, page_h). slice_loop eng isalnum page_idx page_h 0 0 st) st ps)
     + length (clips st) =
   queries st + length (clips (foldl (\<lambda>st (page_idx, page_h).
                  slice_loop eng isalnum page_idx page_h 0 0 st) st ps))"
proof (induction ps arbitrary: st)
  case Nil
  show ?case by simp
next
  case (Cons p ps)
  obtain i h where p: "p = (i, h)" by (cases p)
  from Cons.IH [of "slice_loop eng isalnum i h 0 0 st"]
       slice_loop_queries [of eng isalnum i h 0 0 st]
  show ?case by (simp add: p)
qed

text \<open>
  Claim C8.  The engine is asked for its installed languages once for every slice, not
  once for a document: the number of queries is the number of clips rendered.  On a
  one-page document of height 2000 (two slices) there are two queries, and when the
  answers differ the two slices are recognised with different language profiles.
\<close>

theorem ocr_pdf_queries_per_slice:
  "queries (snd (ocr_pdf_with_tesseract eng isalnum (Some pages))) =
     length (clips (snd (ocr_pdf_with_tesseract eng isalnum (Some pages))))
   \<and> snd (ocr_pdf_with_tesseract changing_engine ascii_alnum (Some [2000])) =
       \<lparr>queries = 2, langs_used = [''chi_sim+eng'', ''eng''],
        clips = [(0, 1500), (1400, 2000)], full_content = []\<rparr>"
proof
  show "queries (snd (ocr_pdf_with_tesseract eng isalnum (Some pages))) =
     length (clips (snd (ocr_pdf_with_tesseract eng isalnum (Some pages))))"
    using pages_queries [of eng isalnum init_state "zip [0..<length pages] pages"]
    by (simp add: ocr_pdf_with_tesseract_def Let_def init_state_def)
next
  have "slice_loop changing_engine ascii_alnum 0 2000 0 0 init_state =
     \<lparr>queries = 2, langs_used = [''chi_sim+eng'', ''eng''],
      clips = [(0, 1500), (1400, 2000)], full_content = []\<rparr>"
    by (simp add: slice_loop.simps recognise_slice_def changing_engine_def init_state_def
          chunk_h_def overlap_def filter_garbled_text_def strip_def Let_def)
  then show "snd (ocr_pdf_with_tesseract changing_engine ascii_alnum (Some [2000])) =
       \<lparr>queries = 2, langs_used = [''chi_sim+eng'', ''eng''],
        clips = [(0, 1500), (1400, 2000)], full_content = []\<rparr>"
    by (simp add: ocr_pdf_with_tesseract_def Let_def)
qed

section \<open>Properties of main\<close>

text \<open>
  Claim C6.  In directory mode on a path that is not a directory, \<open>process_directory\<close>
  returns the counts \<open>(0, 0, 0)\<close> and \<open>main\<close> exits with status 0.
\<close>

theorem main_batch_not_a_directory:
  "directory args \<Longrightarrow> \<not> isdir env (path args) \<Longrightarrow>
   process_directory env (path args) = Inr (0, 0, 0) \<and> main env args = 0"
  by (simp add: main_def process_directory_def bind_def)

theorem main_batch_not_a_directory_witness:
  "main no_such_dir \<lparr>path = ascii ''missing'', directory = True, quiet = False, clean = False\<rparr> = 0
   \<and> main no_such_dir \<lparr>path = ascii ''missing'', directory = False, quiet = False, clean = False\<rparr> = 1"
proof -
  have "main no_such_dir \<lparr>path = ascii ''missing'', directory = True, quiet = False, clean = False\<rparr> = 0"
    using main_batch_not_a_directory
            [of "\<lparr>path = ascii ''missing'', directory = True, quiet = False, clean = False\<rparr>"
                no_such_dir]
    by (simp add: no_such_dir_def)
  moreover have "main no_such_dir
      \<lparr>path = ascii ''missing'', directory = False, quiet = False, clean = False\<rparr> = 1"
    by (simp add: main_def no_such_dir_def)
  ultimately show ?thesis by simp
qed

end
